theory Spec2Isabelle
  imports Complex_Main "HOL-Library.Sublist"
begin

section \<open>Python strings\<close>

text \<open>
  The orchestrator works on Python \<open>str\<close> values with \<open>lower\<close>, \<open>strip\<close>,
  \<open>split\<close>, \<open>join\<close> and the substring test \<open>in\<close>. A string is a list of
  characters; a \<open>char\<close> is read as the code point 0..255, and the two tables below are
  Python's for these code points (\<open>str.isspace\<close> and \<open>str.lower\<close>).
\<close>

definition is_space :: "char \<Rightarrow> bool" where
  "is_space c = (let n = (of_char c :: nat) in
     (9 \<le> n \<and> n \<le> 13) \<or> (28 \<le> n \<and> n \<le> 32) \<or> n = 133 \<or> n = 160)"

definition lower_char :: "char \<Rightarrow> char" where
  "lower_char c = (let n = (of_char c :: nat) in
     if (65 \<le> n \<and> n \<le> 90) \<or> (192 \<le> n \<and> n \<le> 222 \<and> n \<noteq> 215)
     then char_of (n + 32) else c)"

definition lower :: "string \<Rightarrow> string" where
  "lower s = map lower_char s"

definition strip :: "string \<Rightarrow> string" where
  "strip s = rev (dropWhile is_space (rev (dropWhile is_space s)))"

text \<open>
  \<open>s.split()\<close> without arguments: maximal runs of non-space characters, in order;
  \<open>cur\<close> is the run being read, reversed.
\<close>

fun split_acc :: "string \<Rightarrow> string \<Rightarrow> string list" where
  "split_acc cur [] = (if cur = [] then [] else [rev cur])"
| "split_acc cur (c # cs) =
     (if is_space c
      then (if cur = [] then split_acc [] cs else rev cur # split_acc [] cs)
      else split_acc (c # cur) cs)"

definition split :: "string \<Rightarrow> string list" where
  "split s = split_acc [] s"

fun join :: "string \<Rightarrow> string list \<Rightarrow> string" where
  "join sep [] = []"
| "join sep [x] = x"
| "join sep (x # y # ys) = x @ sep @ join sep (y # ys)"

text \<open>\<open>sub in s\<close> on two strings: \<open>sub\<close> occurs in \<open>s\<close> as a contiguous block.\<close>

fun str_contains :: "string \<Rightarrow> string \<Rightarrow> bool" where
  "str_contains sub [] = (sub = [])"
| "str_contains sub (c # cs) = (prefix sub (c # cs) \<or> str_contains sub cs)"

section \<open>The orchestrator's data\<close>

record rule =
  trigger :: string
  action :: string
  params :: "(string \<times> string) list"

text \<open>
  The fields of \<open>OrchestratorAgent\<close>. \<open>rules\<close> is the dictionary from a source to its
  list of rules, in the order of the literal; the two deques are lists, oldest entry
  first; \<open>triggered_phrases\<close> is the dictionary from an action to the time of its last
  trigger. \<open>ticks\<close> is not a field of the Python object: it counts the calls of
  \<open>time.time()\<close> made so far, and the call number \<open>k\<close> returns \<open>clk k\<close> for the clock
  \<open>clk\<close> that every function below takes. Times are real numbers.
\<close>

record orchestrator =
  rules :: "(string \<times> rule list) list"
  phrase_buffer :: "string list"
  phrase_timestamps :: "real list"
  phrase_window :: real
  triggered_phrases :: "string \<rightharpoonup> real"
  ticks :: nat

type_synonym clock = "nat \<Rightarrow> real"

datatype py_error = IndexError | TypeError | AttributeError

definition maxlen :: nat where
  "maxlen = 10"

definition initialize_rules :: "(string \<times> rule list) list" where
  "initialize_rules =
    [(''audio_stt'',
       [\<lparr>trigger = ''open presentation'', action = ''OPEN_PRESENTATION'', params = []\<rparr>,
        \<lparr>trigger = ''next'', action = ''NEXT_SLIDE'', params = []\<rparr>,
        \<lparr>trigger = ''previous'', action = ''PREVIOUS_SLIDE'', params = []\<rparr>]),
     (''vision_vlm'',
       [\<lparr>trigger = ''cardboard'', action = ''ZOOM_ON_OBJECT'',
           params = [(''target'', ''cardboard'')]\<rparr>,
        \<lparr>trigger = ''person'', action = ''ZOOM_ON_OBJECT'',
           params = [(''target'', ''person'')]\<rparr>,
        \<lparr>trigger = ''bottle'', action = ''ZOOM_ON_OBJECT'',
           params = [(''target'', ''bottle'')]\<rparr>]),
     (''gesture'',
       [\<lparr>trigger = ''next'', action = ''NEXT_SLIDE'', params = []\<rparr>,
        \<lparr>trigger = ''previous'', action = ''PREVIOUS_SLIDE'', params = []\<rparr>])]"

definition init_agent :: orchestrator where
  "init_agent =
    \<lparr>rules = initialize_rules, phrase_buffer = [], phrase_timestamps = [],
     phrase_window = 3, triggered_phrases = Map.empty, ticks = 0\<rparr>"

definition time_time :: "clock \<Rightarrow> orchestrator \<Rightarrow> real \<times> orchestrator" where
  "time_time clk s = (clk (ticks s), s\<lparr>ticks := Suc (ticks s)\<rparr>)"

text \<open>
  \<open>append\<close> on a \<open>deque(maxlen=10)\<close>: the new entry goes to the right, and a deque
  that has grown beyond \<open>maxlen\<close> loses its leftmost entry.
\<close>

definition deque_append :: "'a \<Rightarrow> 'a list \<Rightarrow> 'a list" where
  "deque_append x xs = (let ys = xs @ [x] in if length ys > maxlen then tl ys else ys)"

text \<open>
  The loop of \<open>_clean_old_phrases\<close>, for the one reading \<open>now\<close> taken before it.
  \<open>popleft\<close> on an empty \<open>phrase_buffer\<close> raises \<open>IndexError\<close>.
\<close>

fun clean_loop ::
  "real \<Rightarrow> real \<Rightarrow> string list \<Rightarrow> real list \<Rightarrow> py_error + (string list \<times> real list)" where
  "clean_loop now w buf [] = Inr (buf, [])"
| "clean_loop now w buf (t # ts) =
     (if now - t > w
      then (case buf of [] \<Rightarrow> Inl IndexError | b # bs \<Rightarrow> clean_loop now w bs ts)
      else Inr (buf, t # ts))"

definition clean_old_phrases :: "clock \<Rightarrow> orchestrator \<Rightarrow> py_error + orchestrator" where
  "clean_old_phrases clk s =
    (let (current_time, s1) = time_time clk s in
     case clean_loop current_time (phrase_window s1) (phrase_buffer s1) (phrase_timestamps s1) of
       Inl e \<Rightarrow> Inl e
     | Inr (buf, ts) \<Rightarrow> Inr (s1\<lparr>phrase_buffer := buf, phrase_timestamps := ts\<rparr>))"

definition get_recent_phrase :: "clock \<Rightarrow> orchestrator \<Rightarrow> py_error + (string \<times> orchestrator)" where
  "get_recent_phrase clk s =
    (case clean_old_phrases clk s of
       Inl e \<Rightarrow> Inl e
     | Inr s1 \<Rightarrow> Inr (lower (join '' '' (phrase_buffer s1)), s1))"

definition default_cooldown :: real where
  "default_cooldown = 2"

definition was_recently_triggered ::
  "clock \<Rightarrow> string \<Rightarrow> real \<Rightarrow> orchestrator \<Rightarrow> bool \<times> orchestrator" where
  "was_recently_triggered clk a cooldown s =
    (let (current_time, s1) = time_time clk s in
     (case triggered_phrases s1 a of
        Some t \<Rightarrow> current_time - t < cooldown
      | None \<Rightarrow> False, s1))"

definition mark_triggered :: "clock \<Rightarrow> string \<Rightarrow> orchestrator \<Rightarrow> orchestrator" where
  "mark_triggered clk a s =
    (let (t, s1) = time_time clk s in
     s1\<lparr>triggered_phrases := (triggered_phrases s1)(a \<mapsto> t)\<rparr>)"

section \<open>Rule evaluation\<close>

text \<open>
  The arguments of one \<open>asyncio.create_task(self._delegate_action_async(...))\<close>. The
  task does not run inside \<open>apply_rules\<close>, which has no suspension point: the function
  returns the tasks it has created, in the order of their creation.
\<close>

record task =
  task_source :: string
  task_action :: string
  task_params :: "(string \<times> string) list"
  task_content :: string

definition mk_task :: "string \<Rightarrow> string \<Rightarrow> rule \<Rightarrow> task" where
  "mk_task src recent r =
    \<lparr>task_source = src, task_action = action r, task_params = params r, task_content = recent\<rparr>"

definition candidate :: "string \<Rightarrow> rule \<Rightarrow> bool" where
  "candidate recent r = str_contains (lower (trigger r)) recent"

text \<open>The loop \<open>for rule in source_rules\<close> of \<open>apply_rules\<close>; it has no \<open>break\<close>.\<close>

fun rules_loop ::
  "clock \<Rightarrow> string \<Rightarrow> string \<Rightarrow> rule list \<Rightarrow> orchestrator \<Rightarrow> orchestrator \<times> task list" where
  "rules_loop clk src recent [] s = (s, [])"
| "rules_loop clk src recent (r # rs) s =
     (if candidate recent r
      then (case was_recently_triggered clk (action r) default_cooldown s of
              (False, s1) \<Rightarrow>
                (let s2 = mark_triggered clk (action r) s1;
                     (s3, created) = rules_loop clk src recent rs s2
                 in (s3, mk_task src recent r # created))
            | (True, s1) \<Rightarrow> rules_loop clk src recent rs s1)
      else rules_loop clk src recent rs s)"

text \<open>The loop \<open>for word in words\<close>: one reading of the clock for each word.\<close>

fun append_words :: "clock \<Rightarrow> string list \<Rightarrow> orchestrator \<Rightarrow> orchestrator" where
  "append_words clk [] s = s"
| "append_words clk (w # ws) s =
     (let s1 = s\<lparr>phrase_buffer := deque_append w (phrase_buffer s)\<rparr>;
          (t, s2) = time_time clk s1
      in append_words clk ws (s2\<lparr>phrase_timestamps := deque_append t (phrase_timestamps s2)\<rparr>))"

text \<open>
  The values \<open>json.loads\<close> returns. A dictionary is the list of its items; \<open>json.loads\<close>
  is the library's and its result is the input of the model.
\<close>

datatype json =
  JNull | JBool bool | JInt int | JFloat real | JStr string
  | JArr "json list" | JObj "(string \<times> json) list"

datatype loads_result = JSONDecodeError | Loaded json

fun truthy :: "json \<Rightarrow> bool" where
  "truthy JNull = False"
| "truthy (JBool b) = b"
| "truthy (JInt i) = (i \<noteq> 0)"
| "truthy (JFloat x) = (x \<noteq> 0)"
| "truthy (JStr s) = (s \<noteq> [])"
| "truthy (JArr xs) = (xs \<noteq> [])"
| "truthy (JObj kvs) = (kvs \<noteq> [])"

definition rules_get :: "orchestrator \<Rightarrow> string \<Rightarrow> rule list" where
  "rules_get s src = (case map_of (rules s) src of Some rs \<Rightarrow> rs | None \<Rightarrow> [])"

text \<open>
  \<open>apply_rules(data)\<close> for a dictionary \<open>data\<close>. \<open>.strip()\<close> exists on a string only;
  a list or a dictionary as \<open>source\<close> is unhashable, so \<open>self.rules.get(source, [])\<close>
  raises \<open>TypeError\<close>; any other source that is not a string is the key of no rule.
  \<open>Inl\<close> is the exception that leaves the function.
\<close>

definition apply_rules ::
  "clock \<Rightarrow> (string \<times> json) list \<Rightarrow> orchestrator \<Rightarrow> py_error + (orchestrator \<times> task list)" where
  "apply_rules clk data s =
    (case (case map_of data ''content'' of None \<Rightarrow> Inr [] | Some (JStr c) \<Rightarrow> Inr (strip c)
           | Some _ \<Rightarrow> Inl AttributeError) of
       Inl e \<Rightarrow> Inl e
     | Inr content \<Rightarrow>
         (case map_of data ''source'' of
            None \<Rightarrow> Inr (s, [])
          | Some source \<Rightarrow>
              if \<not> truthy source \<or> content = [] then Inr (s, [])
              else if source = JStr ''audio_stt'' then
                (case get_recent_phrase clk (append_words clk (split (lower content)) s) of
                   Inl e \<Rightarrow> Inl e
                 | Inr (recent_phrase, s1) \<Rightarrow>
                     Inr (rules_loop clk ''audio_stt'' recent_phrase (rules_get s1 ''audio_stt'') s1))
              else
                (case source of
                   JStr src \<Rightarrow> Inr (rules_loop clk src (lower content) (rules_get s src) s)
                 | JArr _ \<Rightarrow> Inl TypeError
                 | JObj _ \<Rightarrow> Inl TypeError
                 | _ \<Rightarrow> Inr (s, []))))"

abbreviation event :: "string \<Rightarrow> string \<Rightarrow> (string \<times> json) list" where
  "event src c \<equiv> [(''source'', JStr src), (''content'', JStr c)]"

section \<open>Messages from the perception agents\<close>

text \<open>\<open>k in data\<close> for a string \<open>k\<close>: a number, a boolean and \<open>None\<close> are not iterable.\<close>

fun py_in :: "string \<Rightarrow> json \<Rightarrow> py_error + bool" where
  "py_in k (JObj kvs) = Inr (k \<in> set (map fst kvs))"
| "py_in k (JArr xs) = Inr (JStr k \<in> set xs)"
| "py_in k (JStr s) = Inr (str_contains k s)"
| "py_in k _ = Inl TypeError"

text \<open>
  \<open>parse_message\<close>: \<open>Inr None\<close> is the returned \<open>None\<close>, \<open>Inl\<close> an exception that the
  function does not catch (it catches \<open>json.JSONDecodeError\<close> only).
\<close>

definition parse_message :: "loads_result \<Rightarrow> py_error + json option" where
  "parse_message loaded =
    (case loaded of
       JSONDecodeError \<Rightarrow> Inr None
     | Loaded data \<Rightarrow>
         (case py_in ''source'' data of
            Inl e \<Rightarrow> Inl e
          | Inr False \<Rightarrow> Inr None
          | Inr True \<Rightarrow>
              (case py_in ''content'' data of
                 Inl e \<Rightarrow> Inl e
               | Inr False \<Rightarrow> Inr None
               | Inr True \<Rightarrow> Inr (Some data))))"

text \<open>
  The body of \<open>async for message in websocket\<close> in \<open>connection_handler\<close>, for one
  message. \<open>Inr\<close>: the loop goes on to the next message, with the new state and the tasks
  created. \<open>Inl\<close>: an exception leaves the loop, the handler logs it, removes the client
  and returns, which ends the connection. \<open>data.get\<close> exists on a dictionary only, and
  \<open>data.get('content')[:50]\<close> slices a string or a list only; for every other
  content the slice raises, and the model calls the exception \<open>TypeError\<close>.
\<close>

definition handle_message ::
  "clock \<Rightarrow> loads_result \<Rightarrow> orchestrator \<Rightarrow> py_error + (orchestrator \<times> task list)" where
  "handle_message clk loaded s =
    (case parse_message loaded of
       Inl e \<Rightarrow> Inl e
     | Inr None \<Rightarrow> Inr (s, [])
     | Inr (Some data) \<Rightarrow>
         if \<not> truthy data then Inr (s, [])
         else (case data of
                 JObj kvs \<Rightarrow>
                   (case map_of kvs ''content'' of
                      Some (JStr c) \<Rightarrow> apply_rules clk kvs s
                    | Some (JArr xs) \<Rightarrow> apply_rules clk kvs s
                    | _ \<Rightarrow> Inl TypeError)
               | _ \<Rightarrow> Inl AttributeError))"

section \<open>The connection to the PDF server\<close>

text \<open>
  \<open>PDF_SERVER_CONNECTION\<close> is \<open>None\<close> or a connection object. What the functions do to
  the outside is the list of their effects, in order: opening a connection, sending a
  message on one, and the lines they print.
\<close>

type_synonym connection = nat

datatype log_line =
  IntentRecognized string
  | TriggerContent string
  | DelegatingCommand string "(string \<times> string) list"
  | CommandSent string
  | FailedToSend
  | ConnectedTo string
  | CouldNotConnect string
  | SlideControlUnavailable

datatype effect =
  WsConnect string
  | WsSend connection string "(string \<times> string) list"
  | Print log_line

definition pdf_server_uri :: string where
  "pdf_server_uri = ''ws://localhost:9002/control''"

text \<open>
  \<open>send_ok c\<close> tells whether \<open>await c.send(message)\<close> returns (otherwise it raises);
  the message is \<open>json.dumps\<close> of the action and its parameters.
\<close>

definition send_to_pdf_server ::
  "(connection \<Rightarrow> bool) \<Rightarrow> connection option \<Rightarrow> string \<Rightarrow> (string \<times> string) list
    \<Rightarrow> connection option \<times> effect list" where
  "send_to_pdf_server send_ok conn a ps =
    (case conn of
       None \<Rightarrow> (None, [])
     | Some c \<Rightarrow>
         if send_ok c then (Some c, [WsSend c a ps, Print (CommandSent a)])
         else (None, [WsSend c a ps, Print FailedToSend]))"

text \<open>\<open>outcome\<close> is what \<open>websockets.connect\<close> gives: a connection, or \<open>None\<close> when it raises.\<close>

definition connect_to_pdf_server :: "connection option \<Rightarrow> connection option \<times> effect list" where
  "connect_to_pdf_server outcome =
    (case outcome of
       Some c \<Rightarrow> (Some c, [WsConnect pdf_server_uri, Print (ConnectedTo pdf_server_uri)])
     | None \<Rightarrow>
         (None, [WsConnect pdf_server_uri, Print (CouldNotConnect pdf_server_uri),
                 Print SlideControlUnavailable]))"

definition slide_actions :: "string list" where
  "slide_actions = [''OPEN_PRESENTATION'', ''NEXT_SLIDE'', ''PREVIOUS_SLIDE'', ''GO_TO_SLIDE'']"

definition delegate_action_async ::
  "(connection \<Rightarrow> bool) \<Rightarrow> connection option \<Rightarrow> task \<Rightarrow> connection option \<times> effect list" where
  "delegate_action_async send_ok conn tk =
    (let printed = [Print (IntentRecognized (task_source tk)),
                    Print (TriggerContent (take 50 (task_content tk))),
                    Print (DelegatingCommand (task_action tk) (task_params tk))]
     in if task_action tk \<in> set slide_actions
        then (let (conn', sent) = send_to_pdf_server send_ok conn (task_action tk) (task_params tk)
              in (conn', printed @ sent))
        else (conn, printed))"

definition wire_sends :: "effect list \<Rightarrow> effect list" where
  "wire_sends es = filter (\<lambda>e. case e of WsSend c a ps \<Rightarrow> True | _ \<Rightarrow> False) es"

definition connect_attempts :: "effect list \<Rightarrow> nat" where
  "connect_attempts es = length (filter (\<lambda>e. case e of WsConnect u \<Rightarrow> True | _ \<Rightarrow> False) es)"

section \<open>Runs of the orchestrator\<close>

text \<open>
  A connection handler calls \<open>apply_rules\<close> for one message after the other; an
  exception ends the run. The states an orchestrator can be in are those that such
  calls reach from the state \<open>__init__\<close> builds.
\<close>

fun run ::
  "clock \<Rightarrow> (string \<times> json) list list \<Rightarrow> orchestrator
    \<Rightarrow> py_error + (orchestrator \<times> task list)" where
  "run clk [] s = Inr (s, [])"
| "run clk (d # ds) s =
     (case apply_rules clk d s of
        Inl e \<Rightarrow> Inl e
      | Inr (s1, created1) \<Rightarrow>
          (case run clk ds s1 of
             Inl e \<Rightarrow> Inl e
           | Inr (s2, created2) \<Rightarrow> Inr (s2, created1 @ created2)))"


text \<open>
  The two deques are filled and emptied together and never hold more than \<open>maxlen\<close>
  entries; under a clock that does not run backwards the timestamps are in order and
  none is in the future.
\<close>

definition window_ok :: "orchestrator \<Rightarrow> bool" where
  "window_ok s =
    (length (phrase_buffer s) = length (phrase_timestamps s)
     \<and> length (phrase_buffer s) \<le> maxlen)"



definition lastn :: "nat \<Rightarrow> 'a list \<Rightarrow> 'a list" where
  "lastn n xs = drop (length xs - n) xs"

definition words_of :: "string \<Rightarrow> string list" where
  "words_of c = split (lower (strip c))"

text \<open>
  The first part of \<open>apply_rules\<close>, for an event whose source and content are strings:
  the recent phrase for the source and the state in which the loop over the rules
  starts. For \<open>audio_stt\<close> the words are appended and the window is read; for any
  other source the phrase is the content, stripped and lowercased.
\<close>

definition loop_entry ::
  "clock \<Rightarrow> string \<Rightarrow> string \<Rightarrow> orchestrator \<Rightarrow> py_error + (string \<times> orchestrator)" where
  "loop_entry clk src c s =
    (if src = ''audio_stt'' then get_recent_phrase clk (append_words clk (words_of c) s)
     else Inr (lower (strip c), s))"

text \<open>
  The state in which the loop over the rules \<open>rs\<close>, started in \<open>s0\<close>, reaches rule
  number \<open>i\<close>; whether it creates the task of that rule there (the rule is a candidate
  and its action is not on cooldown at the reading the test takes); and the reading
  that \<open>_mark_triggered\<close> then takes, the one after the test.
\<close>

definition reached ::
  "clock \<Rightarrow> string \<Rightarrow> string \<Rightarrow> rule list \<Rightarrow> orchestrator \<Rightarrow> nat \<Rightarrow> orchestrator" where
  "reached clk src recent rs s0 i = fst (rules_loop clk src recent (take i rs) s0)"

definition dispatched_at ::
  "clock \<Rightarrow> string \<Rightarrow> string \<Rightarrow> rule list \<Rightarrow> orchestrator \<Rightarrow> nat \<Rightarrow> bool" where
  "dispatched_at clk src recent rs s0 i =
    (candidate recent (rs ! i)
     \<and> \<not> fst (was_recently_triggered clk (action (rs ! i)) default_cooldown
              (reached clk src recent rs s0 i)))"

definition mark_at ::
  "clock \<Rightarrow> string \<Rightarrow> string \<Rightarrow> rule list \<Rightarrow> orchestrator \<Rightarrow> nat \<Rightarrow> real" where
  "mark_at clk src recent rs s0 i = clk (Suc (ticks (reached clk src recent rs s0 i)))"

text \<open>The event matches a rule of its source whose action is \<open>a\<close>.\<close>

definition matched :: "clock \<Rightarrow> string \<Rightarrow> string \<Rightarrow> string \<Rightarrow> orchestrator \<Rightarrow> bool" where
  "matched clk src c a s =
    (src \<noteq> [] \<and> strip c \<noteq> []
     \<and> (case loop_entry clk src c s of
          Inl e \<Rightarrow> False
        | Inr (recent, s0) \<Rightarrow>
            list_ex (\<lambda>r. action r = a \<and> candidate recent r) (rules_get s src)))"

definition tasks_for :: "string \<Rightarrow> task list \<Rightarrow> task list" where
  "tasks_for a created = filter (\<lambda>tk. task_action tk = a) created"

text \<open>The sends that reach the peer: those on a connection whose \<open>send\<close> returns.\<close>

definition delivered :: "(connection \<Rightarrow> bool) \<Rightarrow> effect list \<Rightarrow> effect list" where
  "delivered send_ok es =
    filter (\<lambda>e. case e of WsSend c a ps \<Rightarrow> send_ok c | _ \<Rightarrow> False) es"

text \<open>Clocks and a send outcome for the concrete runs below.\<close>

definition tenth_clock :: clock where
  "tenth_clock n = real n / 10"



definition send_succeeds :: "connection \<Rightarrow> bool" where
  "send_succeeds c = True"


text \<open>Eleven words, one more than the phrase window holds.\<close>

definition eleven_words :: "string list" where
  "eleven_words = [''one'', ''two'', ''three'', ''four'', ''five'', ''six'', ''seven'',
     ''eight'', ''nine'', ''ten'', ''eleven'']"

text \<open>The state after the gesture event \<open>next\<close> on a fresh orchestrator.\<close>

definition after_next :: orchestrator where
  "after_next = fst (projr (apply_rules tenth_clock (event ''gesture'' ''next'') init_agent))"

definition send_fails :: "connection \<Rightarrow> bool" where
  "send_fails c = False"

text \<open>
  A clock that stands three seconds after its third reading, and the states after the
  gesture event \<open>previous\<close>, once and twice, under it.
\<close>

definition cooldown_clock :: clock where
  "cooldown_clock n = (if n < 3 then real n / 10 else 3 + real n / 10)"

definition after_previous :: orchestrator where
  "after_previous =
    fst (projr (apply_rules cooldown_clock (event ''gesture'' ''previous'') init_agent))"

definition after_previous_twice :: orchestrator where
  "after_previous_twice =
    fst (projr (apply_rules cooldown_clock (event ''gesture'' ''previous'') after_previous))"

text \<open>
  A clock that never runs backwards, with the readings 0, 0.1, 2.99 and then 3.003,
  3.004, ...; and the state after the audio event \<open>open\<close> under it.
\<close>

definition boundary_clock :: clock where
  "boundary_clock n =
    (if n < 2 then real n / 10 else if n = 2 then 299 / 100 else 3 + real n / 1000)"

definition after_open_boundary :: orchestrator where
  "after_open_boundary =
    fst (projr (apply_rules boundary_clock (event ''audio_stt'' ''open'') init_agent))"

text \<open>
  A clock that is set back: the readings 10, 10, 5 and then 12; and the state after
  the audio event \<open>open\<close> under it.
\<close>

definition back_clock :: clock where
  "back_clock n = (if n < 2 then 10 else if n = 2 then 5 else 12)"

definition after_open_back :: orchestrator where
  "after_open_back =
    fst (projr (apply_rules back_clock (event ''audio_stt'' ''open'') init_agent))"

text \<open>
  A clock that steps back one second between its third and its fourth reading: 9, 10,
  12 and then 11; and the state after the gesture event \<open>next\<close> under it.
\<close>

definition step_back_clock :: clock where
  "step_back_clock n = (if n = 0 then 9 else if n = 1 then 10 else if n = 2 then 12 else 11)"

definition after_next_back :: orchestrator where
  "after_next_back =
    fst (projr (apply_rules step_back_clock (event ''gesture'' ''next'') init_agent))"

section \<open>Basic facts\<close>

lemma was_recently_triggered_eq:
  "was_recently_triggered clk a cd s =
    ((case triggered_phrases s a of Some t \<Rightarrow> clk (ticks s) - t < cd | None \<Rightarrow> False),
     s\<lparr>ticks := Suc (ticks s)\<rparr>)"
  by (simp add: was_recently_triggered_def time_time_def)

lemma mark_triggered_eq:
  "mark_triggered clk a s =
    s\<lparr>ticks := Suc (ticks s), triggered_phrases := (triggered_phrases s)(a \<mapsto> clk (ticks s))\<rparr>"
  by (simp add: mark_triggered_def time_time_def)

lemma apply_rules_event:
  "apply_rules clk (event src c) s =
    (if src = [] \<or> strip c = [] then Inr (s, [])
     else if src = ''audio_stt'' then
       (case get_recent_phrase clk (append_words clk (words_of c) s) of
          Inl e \<Rightarrow> Inl e
        | Inr (p, s1) \<Rightarrow> Inr (rules_loop clk ''audio_stt'' p (rules_get s1 ''audio_stt'') s1))
     else Inr (rules_loop clk src (lower (strip c)) (rules_get s src) s))"
  by (simp add: apply_rules_def words_of_def)

text \<open>The substring test is the library's \<open>sublist\<close>.\<close>

lemma str_contains_sublist: "str_contains sub s = sublist sub s"
  by (induction s) (auto simp: sublist_Cons_right)

section \<open>The downstream connection\<close>

text \<open>
  C2, as the code has it: \<open>send_to_pdf_server\<close> called while \<open>PDF_SERVER_CONNECTION\<close> is
  \<open>None\<close> does nothing at all. It opens no connection, sends nothing, prints nothing,
  and the connection stays \<open>None\<close>: the payload is dropped. The same holds for a task
  that runs while there is no connection: it prints its three lines and no more.
\<close>

theorem send_while_disconnected:
  "send_to_pdf_server send_ok None a ps = (None, [])
   \<and> fst (delegate_action_async send_ok None tk) = None
   \<and> connect_attempts (snd (delegate_action_async send_ok None tk)) = 0
   \<and> wire_sends (snd (delegate_action_async send_ok None tk)) = []"
  by (simp add: send_to_pdf_server_def delegate_action_async_def connect_attempts_def
      wire_sends_def Let_def)

text \<open>
  C2 as stated asks for exactly one connect attempt; a send of \<open>NEXT_SLIDE\<close> without a
  connection makes none.
\<close>

theorem one_connect_attempt_counterexample:
  "connect_attempts (snd (send_to_pdf_server send_succeeds None ''NEXT_SLIDE'' [])) \<noteq> 1"
  by (simp add: send_to_pdf_server_def connect_attempts_def)



section \<open>Parsing and the connection handler\<close>

text \<open>
  A message that is not JSON, and a JSON object without \<open>source\<close> or without
  \<open>content\<close>, is rejected: \<open>parse_message\<close> returns \<open>None\<close>, the handler goes on to the
  next message with the state unchanged and no task created.
\<close>

lemma parse_rejects_malformed:
  "parse_message JSONDecodeError = Inr None
   \<and> handle_message clk JSONDecodeError s = Inr (s, [])"
  by (simp add: parse_message_def handle_message_def)

lemma parse_rejects_incomplete_object:
  "''source'' \<notin> set (map fst kvs) \<or> ''content'' \<notin> set (map fst kvs) \<Longrightarrow>
   parse_message (Loaded (JObj kvs)) = Inr None
   \<and> handle_message clk (Loaded (JObj kvs)) s = Inr (s, [])"
  by (auto simp add: parse_message_def handle_message_def split: bool.splits)

text \<open>
  C8 fails for the message \<open>42\<close>: it is JSON and has no \<open>source\<close> field, and
  \<open>'source' not in data\<close> on the number raises \<open>TypeError\<close>, which \<open>parse_message\<close>
  does not catch. The exception leaves the loop of the handler, so the connection
  ends instead of staying open.
\<close>

theorem parse_number_raises:
  "parse_message (Loaded (JInt 42)) = Inl TypeError
   \<and> handle_message clk (Loaded (JInt 42)) s = Inl TypeError"
  by (simp add: parse_message_def handle_message_def)

section \<open>The loop over the rules\<close>

text \<open>
  The loop changes the cooldown registry and the count of clock readings only, and it
  runs through all the rules: after a rule has created a task the loop goes on.
\<close>

lemma rules_loop_frame:
  "rules_loop clk src recent rs s = (s', created) \<Longrightarrow>
   rules s' = rules s \<and> phrase_buffer s' = phrase_buffer s
   \<and> phrase_timestamps s' = phrase_timestamps s \<and> phrase_window s' = phrase_window s
   \<and> ticks s \<le> ticks s'"
proof (induction rs arbitrary: s s' created)
  case Nil
  then show ?case by simp
next
  case (Cons r rs)
  show ?case
  proof (cases "candidate recent r")
    case False
    with Cons show ?thesis by simp
  next
    case True
    show ?thesis
    proof (cases "fst (was_recently_triggered clk (action r) default_cooldown s)")
      case True
      with Cons.prems \<open>candidate recent r\<close>
      have "rules_loop clk src recent rs (s\<lparr>ticks := Suc (ticks s)\<rparr>) = (s', created)"
        by (simp add: was_recently_triggered_eq split: bool.splits)
      from Cons.IH [OF this] show ?thesis by simp
    next
      case False
      with Cons.prems \<open>candidate recent r\<close>
      obtain rest where
        "rules_loop clk src recent rs (mark_triggered clk (action r) (s\<lparr>ticks := Suc (ticks s)\<rparr>))
          = (s', rest)"
        by (auto simp add: was_recently_triggered_eq Let_def split: bool.splits prod.splits)
      from Cons.IH [OF this] show ?thesis by (simp add: mark_triggered_eq)
    qed
  qed
qed

lemma rules_loop_Cons:
  "rules_loop clk src recent (r # rs) s =
    (if candidate recent r \<and> \<not> fst (was_recently_triggered clk (action r) default_cooldown s)
     then (fst (rules_loop clk src recent rs
                  (mark_triggered clk (action r) (s\<lparr>ticks := Suc (ticks s)\<rparr>))),
           mk_task src recent r #
           snd (rules_loop clk src recent rs
                  (mark_triggered clk (action r) (s\<lparr>ticks := Suc (ticks s)\<rparr>))))
     else if candidate recent r then rules_loop clk src recent rs (s\<lparr>ticks := Suc (ticks s)\<rparr>)
     else rules_loop clk src recent rs s)"
  by (simp add: was_recently_triggered_eq Let_def split: bool.splits prod.splits)







section \<open>What a call of \<open>apply_rules\<close> changes\<close>

lemma append_words_frame:
  "triggered_phrases (append_words clk ws s) = triggered_phrases s
   \<and> rules (append_words clk ws s) = rules s
   \<and> phrase_window (append_words clk ws s) = phrase_window s
   \<and> ticks (append_words clk ws s) = ticks s + length ws"
  by (induction ws arbitrary: s) (simp_all add: time_time_def)

lemma get_recent_phrase_frame:
  "get_recent_phrase clk s = Inr (p, s1) \<Longrightarrow>
   triggered_phrases s1 = triggered_phrases s \<and> rules s1 = rules s
   \<and> phrase_window s1 = phrase_window s \<and> ticks s1 = Suc (ticks s)
   \<and> p = lower (join '' '' (phrase_buffer s1))"
  by (auto simp add: get_recent_phrase_def clean_old_phrases_def time_time_def
      split: sum.splits prod.splits)

text \<open>A call of \<open>apply_rules\<close> that returns has either done nothing or run the loop.\<close>

lemma apply_rules_cases:
  assumes "apply_rules clk data s = Inr (s', created)"
  shows "(s' = s \<and> created = [])
   \<or> (\<exists>src recent s0.
         rules_loop clk src recent (rules_get s0 src) s0 = (s', created)
         \<and> triggered_phrases s0 = triggered_phrases s \<and> ticks s \<le> ticks s0
         \<and> rules s0 = rules s \<and> phrase_window s0 = phrase_window s)"
proof (cases "s' = s \<and> created = []")
  case True
  then show ?thesis by simp
next
  case False
  show ?thesis
  proof (cases "map_of data ''source'' = Some (JStr ''audio_stt'')")
    case True
    with assms False obtain c p s1 where
      g: "get_recent_phrase clk (append_words clk (split (lower c)) s) = Inr (p, s1)"
      and l: "rules_loop clk ''audio_stt'' p (rules_get s1 ''audio_stt'') s1 = (s', created)"
      by (auto simp add: apply_rules_def split: option.splits json.splits sum.splits
          if_splits prod.splits)
    from get_recent_phrase_frame [OF g] append_words_frame [of clk "split (lower c)" s]
    have "triggered_phrases s1 = triggered_phrases s \<and> ticks s \<le> ticks s1
         \<and> rules s1 = rules s \<and> phrase_window s1 = phrase_window s"
      by simp
    with l show ?thesis by blast
  next
    case notaudio: False
    with assms False obtain src recent where
      "rules_loop clk src recent (rules_get s src) s = (s', created)"
      by (auto simp add: apply_rules_def split: option.splits json.splits sum.splits
          if_splits prod.splits)
    then show ?thesis by blast
  qed
qed

lemma rules_loop_registry_frame:
  "rules_loop clk src recent rs s = (s', created) \<Longrightarrow>
   a \<notin> task_action ` set created \<Longrightarrow> triggered_phrases s' a = triggered_phrases s a"
proof (induction rs arbitrary: s s' created)
  case Nil
  then show ?case by simp
next
  case (Cons r rs)
  show ?case
  proof (cases "candidate recent r \<and> \<not> fst (was_recently_triggered clk (action r) default_cooldown s)")
    case True
    let ?s2 = "mark_triggered clk (action r) (s\<lparr>ticks := Suc (ticks s)\<rparr>)"
    from True Cons.prems(1) have
      s': "s' = fst (rules_loop clk src recent rs ?s2)" and
      cr: "created = mk_task src recent r # snd (rules_loop clk src recent rs ?s2)"
      unfolding rules_loop_Cons by simp_all
    from cr Cons.prems(2) have ne: "a \<noteq> action r"
      and notin: "a \<notin> task_action ` set (snd (rules_loop clk src recent rs ?s2))"
      by (auto simp add: mk_task_def)
    have "triggered_phrases s' a = triggered_phrases ?s2 a"
      using Cons.IH [of ?s2 s' "snd (rules_loop clk src recent rs ?s2)"] s' notin
      by simp
    with ne show ?thesis by (simp add: mark_triggered_eq)
  next
    case False
    with Cons.prems(1) have
      "rules_loop clk src recent rs s = (s', created)
       \<or> rules_loop clk src recent rs (s\<lparr>ticks := Suc (ticks s)\<rparr>) = (s', created)"
      unfolding rules_loop_Cons by (auto split: if_splits)
    with Cons.IH Cons.prems(2) show ?thesis by fastforce
  qed
qed

text \<open>
  C10: a call of \<open>apply_rules\<close> leaves the registry entry of every action for which it
  creates no task as it was; a match that the cooldown suppresses writes nothing. So
  after the call the action is on cooldown exactly while the clock is less than
  \<open>default_cooldown\<close> past the time recorded at its last dispatch.
\<close>

theorem suppressed_match_keeps_registry:
  assumes "apply_rules clk data s = Inr (s', created)"
    and "a \<notin> task_action ` set created"
  shows "triggered_phrases s' a = triggered_phrases s a
   \<and> fst (was_recently_triggered clk a default_cooldown s') =
       (case triggered_phrases s a of
          Some t \<Rightarrow> clk (ticks s') - t < default_cooldown
        | None \<Rightarrow> False)"
proof -
  have "triggered_phrases s' a = triggered_phrases s a"
    using apply_rules_cases [OF assms(1)] rules_loop_registry_frame assms(2)
    by fastforce
  then show ?thesis by (simp add: was_recently_triggered_eq)
qed


text \<open>
  The gesture \<open>next\<close> a second time, 0.1 s after the first: the rule matches, the
  action is on cooldown, no task is created and the recorded time stays 0.1.
\<close>

theorem suppressed_match_keeps_registry_witness:
  "snd (projr (apply_rules tenth_clock (event ''gesture'' ''next'') after_next)) = []
   \<and> triggered_phrases
        (fst (projr (apply_rules tenth_clock (event ''gesture'' ''next'') after_next)))
        ''NEXT_SLIDE'' = triggered_phrases after_next ''NEXT_SLIDE''
   \<and> triggered_phrases after_next ''NEXT_SLIDE'' = Some (1 / 10)"
proof -
  let ?res = "apply_rules tenth_clock (event ''gesture'' ''next'') after_next"
  have "\<not> isl ?res" by code_simp
  then have returned: "?res = Inr (fst (projr ?res), snd (projr ?res))"
    by (cases ?res) simp_all
  have none: "snd (projr ?res) = []" by code_simp
  have marked: "triggered_phrases after_next ''NEXT_SLIDE'' = Some (1 / 10)" by code_simp
  from none have "''NEXT_SLIDE'' \<notin> task_action ` set (snd (projr ?res))" by simp
  from suppressed_match_keeps_registry [OF returned this] none marked
  show ?thesis by simp
qed

section \<open>The cooldown mark and the tasks\<close>









section \<open>The phrase window\<close>

lemma length_deque_append:
  "length xs \<le> maxlen \<Longrightarrow>
   length (deque_append x xs) = min maxlen (Suc (length xs))"
  by (auto simp add: deque_append_def Let_def)

lemma set_deque_append: "set (deque_append x xs) \<subseteq> insert x (set xs)"
  by (cases xs) (auto simp add: deque_append_def Let_def dest: list.set_sel(2) in_set_butlastD)


lemma append_words_window_ok:
  "window_ok s \<Longrightarrow> window_ok (append_words clk ws s)"
proof (induction ws arbitrary: s)
  case Nil
  then show ?case by simp
next
  case (Cons w ws)
  show ?case
    using Cons.prems
    by (simp add: time_time_def) (rule Cons.IH, simp add: window_ok_def length_deque_append)
qed


text \<open>
  On two deques of equal length the cleaning loop raises nothing; it removes a front
  part of both, and what it leaves of timestamps in order is within the window.
\<close>

lemma clean_loop_total:
  "length buf = length ts \<Longrightarrow>
   \<exists>buf' ts'. clean_loop now w buf ts = Inr (buf', ts')
     \<and> length buf' = length ts' \<and> suffix (zip buf' ts') (zip buf ts)
     \<and> suffix ts' ts \<and> suffix buf' buf
     \<and> (sorted ts \<longrightarrow> (\<forall>t\<in>set ts'. now - t \<le> w))"
proof (induction ts arbitrary: buf)
  case Nil
  then show ?case by simp
next
  case (Cons t ts)
  then obtain b bs where buf: "buf = b # bs" "length bs = length ts"
    by (cases buf) auto
  show ?case
  proof (cases "now - t > w")
    case True
    from Cons.IH [OF buf(2)] obtain buf' ts' where
      r: "clean_loop now w bs ts = Inr (buf', ts')" "length buf' = length ts'"
      "suffix (zip buf' ts') (zip bs ts)" "suffix ts' ts" "suffix buf' bs"
      "sorted ts \<longrightarrow> (\<forall>t\<in>set ts'. now - t \<le> w)"
      by blast
    with True buf show ?thesis by (auto simp add: suffix_Cons)
  next
    case False
    with buf Cons.prems show ?thesis by fastforce
  qed
qed

lemma get_recent_phrase_window:
  assumes "window_ok s"
  shows "\<exists>s'. get_recent_phrase clk s = Inr (lower (join '' '' (phrase_buffer s')), s')
     \<and> window_ok s'
     \<and> suffix (zip (phrase_buffer s') (phrase_timestamps s'))
          (zip (phrase_buffer s) (phrase_timestamps s))
     \<and> suffix (phrase_timestamps s') (phrase_timestamps s)
     \<and> suffix (phrase_buffer s') (phrase_buffer s)
     \<and> (sorted (phrase_timestamps s) \<longrightarrow>
          (\<forall>t\<in>set (phrase_timestamps s'). clk (ticks s) - t \<le> phrase_window s))"
proof -
  from assms have len: "length (phrase_buffer s) = length (phrase_timestamps s)"
    by (simp add: window_ok_def)
  from clean_loop_total [OF len, of "clk (ticks s)" "phrase_window s"]
  obtain buf' ts' where
    r: "clean_loop (clk (ticks s)) (phrase_window s) (phrase_buffer s) (phrase_timestamps s)
        = Inr (buf', ts')"
    "length buf' = length ts'"
    "suffix (zip buf' ts') (zip (phrase_buffer s) (phrase_timestamps s))"
    "suffix ts' (phrase_timestamps s)" "suffix buf' (phrase_buffer s)"
    "sorted (phrase_timestamps s) \<longrightarrow> (\<forall>t\<in>set ts'. clk (ticks s) - t \<le> phrase_window s)"
    by blast
  let ?s' = "s\<lparr>ticks := Suc (ticks s), phrase_buffer := buf', phrase_timestamps := ts'\<rparr>"
  have g: "get_recent_phrase clk s = Inr (lower (join '' '' (phrase_buffer ?s')), ?s')"
    using r(1) by (simp add: get_recent_phrase_def clean_old_phrases_def time_time_def)
  from r(5) have "length buf' \<le> length (phrase_buffer s)" by (rule suffix_length_le)
  with assms r(2) have "window_ok ?s'" by (simp add: window_ok_def)
  with g r show ?thesis by (intro exI [of _ ?s']) simp
qed










section \<open>The capacity of the phrase window\<close>

lemma lastn_short: "length xs \<le> n \<Longrightarrow> lastn n xs = xs"
  by (simp add: lastn_def)

lemma length_lastn: "length (lastn n xs) = min n (length xs)"
  by (simp add: lastn_def)

lemma lastn_lastn_append: "lastn n (lastn n xs @ ys) = lastn n (xs @ ys)"
proof (cases "length xs \<le> n")
  case True
  then show ?thesis by (simp add: lastn_def)
next
  case False
  then have "length xs - n + n = length xs" by simp
  with False show ?thesis by (simp add: lastn_def) (metis add.commute diff_add_inverse2 Nat.add_diff_assoc2 nat_le_linear)
qed

lemma deque_append_eq_lastn:
  assumes "length xs \<le> maxlen"
  shows "deque_append x xs = lastn maxlen (xs @ [x])"
proof (cases "length xs < maxlen")
  case True
  then show ?thesis by (simp add: deque_append_def lastn_def Let_def)
next
  case False
  with assms have "Suc (length xs) - maxlen = Suc 0" by simp
  moreover from False obtain y ys where "xs = y # ys" by (cases xs) (simp_all add: maxlen_def)
  ultimately show ?thesis using False
    by (simp add: deque_append_def lastn_def Let_def drop_Suc)
qed

lemma append_words_buffer:
  "length (phrase_buffer s) \<le> maxlen \<Longrightarrow>
   phrase_buffer (append_words clk ws s) = lastn maxlen (phrase_buffer s @ ws)"
proof (induction ws arbitrary: s)
  case Nil
  then show ?case by (simp add: lastn_short)
next
  case (Cons w ws)
  let ?s2 = "s\<lparr>phrase_buffer := deque_append w (phrase_buffer s), ticks := Suc (ticks s),
       phrase_timestamps := deque_append (clk (ticks s)) (phrase_timestamps s)\<rparr>"
  have b: "phrase_buffer ?s2 = lastn maxlen (phrase_buffer s @ [w])"
    using Cons.prems by (simp add: deque_append_eq_lastn)
  then have "length (phrase_buffer ?s2) \<le> maxlen" by (simp add: length_lastn)
  from Cons.IH [OF this] b
  have "phrase_buffer (append_words clk ws ?s2) = lastn maxlen ((phrase_buffer s @ [w]) @ ws)"
    by (simp only: lastn_lastn_append)
  then show ?case by (simp add: time_time_def)
qed

lemma append_words_readings:
  "\<forall>t\<in>set (phrase_timestamps s). \<exists>j<ticks s. t = clk j \<Longrightarrow>
   \<forall>t\<in>set (phrase_timestamps (append_words clk ws s)).
     \<exists>j<ticks (append_words clk ws s). t = clk j"
proof (induction ws arbitrary: s)
  case Nil
  then show ?case by simp
next
  case (Cons w ws)
  let ?s2 = "s\<lparr>phrase_buffer := deque_append w (phrase_buffer s), ticks := Suc (ticks s),
       phrase_timestamps := deque_append (clk (ticks s)) (phrase_timestamps s)\<rparr>"
  have "\<forall>t\<in>set (phrase_timestamps ?s2). \<exists>j<ticks ?s2. t = clk j"
  proof
    fix t assume "t \<in> set (phrase_timestamps ?s2)"
    with set_deque_append [of "clk (ticks s)" "phrase_timestamps s"]
    have "t = clk (ticks s) \<or> t \<in> set (phrase_timestamps s)" by auto
    with Cons.prems show "\<exists>j<ticks ?s2. t = clk j"
      by (auto intro: less_SucI)
  qed
  from Cons.IH [OF this] show ?case by (simp add: time_time_def)
qed

text \<open>While the oldest entry is within the window the clean-up removes nothing.\<close>

lemma clean_loop_noop:
  "\<forall>t\<in>set ts. now - t \<le> w \<Longrightarrow> clean_loop now w buf ts = Inr (buf, ts)"
  by (cases ts) simp_all

lemma get_recent_phrase_noop:
  assumes "\<forall>t\<in>set (phrase_timestamps s). clk (ticks s) - t \<le> phrase_window s"
  shows "get_recent_phrase clk s
     = Inr (lower (join '' '' (phrase_buffer s)), s\<lparr>ticks := Suc (ticks s)\<rparr>)"
  using clean_loop_noop [OF assms, of "phrase_buffer s"]
  by (simp add: get_recent_phrase_def clean_old_phrases_def time_time_def)

lemma words_of_blank: "strip c = [] \<Longrightarrow> words_of c = []"
  by (simp add: words_of_def lower_def split_def)

lemma apply_rules_event_total:
  assumes "window_ok s"
  shows "\<exists>s1 c1. apply_rules clk (event src c) s = Inr (s1, c1)
     \<and> window_ok s1 \<and> ticks s \<le> ticks s1"
proof (cases "src = [] \<or> strip c = []")
  case True
  with assms show ?thesis by (simp add: apply_rules_event)
next
  case False
  show ?thesis
  proof (cases "src = ''audio_stt''")
    case True
    let ?s0 = "append_words clk (words_of c) s"
    from assms have "window_ok ?s0" by (rule append_words_window_ok)
    from get_recent_phrase_window [OF this, of clk] obtain s1 where
      g: "get_recent_phrase clk ?s0 = Inr (lower (join '' '' (phrase_buffer s1)), s1)"
      and ok: "window_ok s1"
      by blast
    obtain s2 c2 where
      l: "rules_loop clk ''audio_stt'' (lower (join '' '' (phrase_buffer s1)))
            (rules_get s1 ''audio_stt'') s1 = (s2, c2)"
      by (cases "rules_loop clk ''audio_stt'' (lower (join '' '' (phrase_buffer s1)))
            (rules_get s1 ''audio_stt'') s1")
    from rules_loop_frame [OF l] ok have "window_ok s2" "ticks s1 \<le> ticks s2"
      by (simp_all add: window_ok_def)
    moreover from get_recent_phrase_frame [OF g] have "ticks s \<le> ticks s1"
      by (simp add: append_words_frame)
    moreover have "apply_rules clk (event src c) s = Inr (s2, c2)"
      using False True g l by (simp add: apply_rules_event)
    ultimately show ?thesis by auto
  next
    case notaudio: False
    obtain s2 c2 where
      l: "rules_loop clk src (lower (strip c)) (rules_get s src) s = (s2, c2)"
      by (cases "rules_loop clk src (lower (strip c)) (rules_get s src) s")
    from rules_loop_frame [OF l] assms have "window_ok s2" "ticks s \<le> ticks s2"
      by (simp_all add: window_ok_def)
    moreover have "apply_rules clk (event src c) s = Inr (s2, c2)"
      using False notaudio l by (simp add: apply_rules_event)
    ultimately show ?thesis by auto
  qed
qed

lemma run_events_total:
  "window_ok s \<Longrightarrow>
   \<exists>s' created. run clk (map (event src) cs) s = Inr (s', created)
     \<and> window_ok s' \<and> ticks s \<le> ticks s'"
proof (induction cs arbitrary: s)
  case Nil
  then show ?case by simp
next
  case (Cons c cs)
  from apply_rules_event_total [OF Cons.prems, of clk src c] obtain s1 c1 where
    a: "apply_rules clk (event src c) s = Inr (s1, c1)" "window_ok s1" "ticks s \<le> ticks s1"
    by blast
  from Cons.IH [OF a(2)] obtain s' c2 where
    r: "run clk (map (event src) cs) s1 = Inr (s', c2)" "window_ok s'" "ticks s1 \<le> ticks s'"
    by blast
  from a r show ?case by (intro exI [of _ s'] exI [of _ "c1 @ c2"]) simp
qed


lemma audio_event_fills_window:
  assumes ok: "window_ok s" and w: "phrase_window s = 3"
    and rd: "\<forall>t\<in>set (phrase_timestamps s). \<exists>j<ticks s. t = clk j"
    and a: "apply_rules clk (event ''audio_stt'' c) s = Inr (s1, c1)"
    and bound: "\<forall>i\<le>ticks s1. \<forall>j\<le>ticks s1. clk i - clk j \<le> 3"
  shows "phrase_buffer s1 = lastn maxlen (phrase_buffer s @ words_of c)
     \<and> window_ok s1 \<and> phrase_window s1 = 3
     \<and> (\<forall>t\<in>set (phrase_timestamps s1). \<exists>j<ticks s1. t = clk j)"
proof (cases "strip c = []")
  case True
  with a have "s1 = s" by (simp add: apply_rules_event)
  with True ok w rd show ?thesis
    by (simp add: words_of_blank lastn_short window_ok_def)
next
  case False
  let ?s0 = "append_words clk (words_of c) s"
  from a False obtain p sr where
    g: "get_recent_phrase clk ?s0 = Inr (p, sr)"
    and l: "rules_loop clk ''audio_stt'' p (rules_get sr ''audio_stt'') sr = (s1, c1)"
    by (auto simp add: apply_rules_event split: sum.splits)
  from rules_loop_frame [OF l] have f: "phrase_buffer s1 = phrase_buffer sr"
    "phrase_timestamps s1 = phrase_timestamps sr" "phrase_window s1 = phrase_window sr"
    "ticks sr \<le> ticks s1"
    by simp_all
  from get_recent_phrase_frame [OF g] have t: "ticks sr = Suc (ticks ?s0)" by simp
  from append_words_readings [OF rd, of "words_of c"]
  have rd0: "\<forall>t\<in>set (phrase_timestamps ?s0). \<exists>j<ticks ?s0. t = clk j" .
  have "\<forall>t\<in>set (phrase_timestamps ?s0). clk (ticks ?s0) - t \<le> phrase_window ?s0"
  proof
    fix u assume "u \<in> set (phrase_timestamps ?s0)"
    with rd0 obtain j where j: "j < ticks ?s0" "u = clk j" by blast
    with f(4) t have "ticks ?s0 \<le> ticks s1" "j \<le> ticks s1" by simp_all
    with bound have "clk (ticks ?s0) - clk j \<le> 3" by blast
    with j(2) w show "clk (ticks ?s0) - u \<le> phrase_window ?s0"
      by (simp add: append_words_frame)
  qed
  from get_recent_phrase_noop [of ?s0 clk, OF this] g
  have sr: "sr = ?s0\<lparr>ticks := Suc (ticks ?s0)\<rparr>" by simp
  from ok have "length (phrase_buffer s) \<le> maxlen" by (simp add: window_ok_def)
  from append_words_buffer [OF this, of clk "words_of c"] sr f(1)
  have buf: "phrase_buffer s1 = lastn maxlen (phrase_buffer s @ words_of c)" by simp
  from append_words_window_ok [OF ok, of clk "words_of c"] sr f(1,2)
  have ok1: "window_ok s1" by (simp add: window_ok_def)
  from sr f(3) w have w1: "phrase_window s1 = 3" by (simp add: append_words_frame)
  have "\<forall>t\<in>set (phrase_timestamps s1). \<exists>j<ticks s1. t = clk j"
  proof
    fix u assume "u \<in> set (phrase_timestamps s1)"
    with f(2) sr have "u \<in> set (phrase_timestamps ?s0)" by simp
    with rd0 obtain j where "j < ticks ?s0" "u = clk j" by blast
    with f(4) t show "\<exists>j<ticks s1. u = clk j" by (intro exI [of _ j]) simp
  qed
  with buf ok1 w1 show ?thesis by blast
qed

lemma run_fills_window:
  "window_ok s \<Longrightarrow> phrase_window s = 3 \<Longrightarrow>
   \<forall>t\<in>set (phrase_timestamps s). \<exists>j<ticks s. t = clk j \<Longrightarrow>
   run clk (map (event ''audio_stt'') cs) s = Inr (s', created) \<Longrightarrow>
   \<forall>i\<le>ticks s'. \<forall>j\<le>ticks s'. clk i - clk j \<le> 3 \<Longrightarrow>
   phrase_buffer s' = lastn maxlen (phrase_buffer s @ concat (map words_of cs))
   \<and> phrase_window s' = 3
   \<and> (\<forall>t\<in>set (phrase_timestamps s'). \<exists>j<ticks s'. t = clk j)"
proof (induction cs arbitrary: s created)
  case Nil
  then show ?case by (simp add: lastn_short window_ok_def)
next
  case (Cons c cs)
  from Cons.prems(4) obtain s1 c1 c2 where
    a: "apply_rules clk (event ''audio_stt'' c) s = Inr (s1, c1)"
    and r: "run clk (map (event ''audio_stt'') cs) s1 = Inr (s', c2)"
    by (auto split: sum.splits)
  from apply_rules_event_total [OF Cons.prems(1), of clk "''audio_stt''" c] a
  have ok1: "window_ok s1" by simp
  from run_events_total [OF ok1, of clk "''audio_stt''" cs] r
  have "ticks s1 \<le> ticks s'" by simp
  with Cons.prems(5) have "\<forall>i\<le>ticks s1. \<forall>j\<le>ticks s1. clk i - clk j \<le> 3"
    by (meson le_trans)
  from audio_event_fills_window [OF Cons.prems(1,2,3) a this]
  have s1: "phrase_buffer s1 = lastn maxlen (phrase_buffer s @ words_of c)"
    "phrase_window s1 = 3"
    "\<forall>t\<in>set (phrase_timestamps s1). \<exists>j<ticks s1. t = clk j"
    by simp_all
  from Cons.IH [OF ok1 s1(2) s1(3) r Cons.prems(5)] s1(1) show ?case
    by (simp add: lastn_lastn_append)
qed

text \<open>
  C9. A fresh orchestrator that receives audio events with the contents \<open>cs\<close> raises
  nothing, and its window never holds more than \<open>maxlen = 10\<close> words, whatever the
  clock says. If all the clock readings of the run and the next one are within 3
  seconds of each other, so that no word leaves by age, the window holds exactly the
  last 10 of the words received, the earlier ones having been pushed out oldest first,
  and the recent phrase read then is these words joined by single spaces.
\<close>

theorem window_capacity:
  "\<exists>s' created. run clk (map (event ''audio_stt'') cs) init_agent = Inr (s', created)
     \<and> length (phrase_buffer s') \<le> maxlen
     \<and> ((\<forall>i\<le>ticks s'. \<forall>j\<le>ticks s'. clk i - clk j \<le> 3) \<longrightarrow>
          phrase_buffer s' = lastn maxlen (concat (map words_of cs))
          \<and> get_recent_phrase clk s'
              = Inr (lower (join '' '' (lastn maxlen (concat (map words_of cs)))),
                     s'\<lparr>ticks := Suc (ticks s')\<rparr>))"
proof -
  have ok: "window_ok init_agent" and w: "phrase_window init_agent = 3"
    and rd: "\<forall>t\<in>set (phrase_timestamps init_agent). \<exists>j<ticks init_agent. t = clk j"
    by (simp_all add: window_ok_def init_agent_def)
  from run_events_total [OF ok, of clk "''audio_stt''" cs] obtain s' created where
    r: "run clk (map (event ''audio_stt'') cs) init_agent = Inr (s', created)"
    and ok': "window_ok s'"
    by blast
  have full: "phrase_buffer s' = lastn maxlen (concat (map words_of cs))
          \<and> get_recent_phrase clk s'
              = Inr (lower (join '' '' (lastn maxlen (concat (map words_of cs)))),
                     s'\<lparr>ticks := Suc (ticks s')\<rparr>)"
    if bound: "\<forall>i\<le>ticks s'. \<forall>j\<le>ticks s'. clk i - clk j \<le> 3"
  proof -
    from run_fills_window [OF ok w rd r bound]
    have b: "phrase_buffer s' = lastn maxlen (concat (map words_of cs))"
      and w': "phrase_window s' = 3"
      and rd': "\<forall>t\<in>set (phrase_timestamps s'). \<exists>j<ticks s'. t = clk j"
      by (simp_all add: init_agent_def)
    have "\<forall>t\<in>set (phrase_timestamps s'). clk (ticks s') - t \<le> phrase_window s'"
    proof
      fix u assume "u \<in> set (phrase_timestamps s')"
      with rd' obtain j where "j < ticks s'" "u = clk j" by blast
      with bound w' show "clk (ticks s') - u \<le> phrase_window s'" by simp
    qed
    from get_recent_phrase_noop [of s' clk, OF this] b show ?thesis by simp
  qed
  from ok' have "length (phrase_buffer s') \<le> maxlen" by (simp add: window_ok_def)
  with r full show ?thesis by blast
qed


text \<open>Eleven words, 0.2 s apart: the first one is gone, the other ten are the phrase.\<close>

theorem window_capacity_witness:
  "phrase_buffer (fst (projr (run tenth_clock (map (event ''audio_stt'') eleven_words)
       init_agent)))
     = [''two'', ''three'', ''four'', ''five'', ''six'', ''seven'', ''eight'', ''nine'',
        ''ten'', ''eleven'']
   \<and> fst (projr (get_recent_phrase tenth_clock
        (fst (projr (run tenth_clock (map (event ''audio_stt'') eleven_words) init_agent)))))
     = ''two three four five six seven eight nine ten eleven''"
proof -
  let ?run = "run tenth_clock (map (event ''audio_stt'') eleven_words) init_agent"
  from window_capacity [of tenth_clock eleven_words] obtain s' created where
    r: "?run = Inr (s', created)"
    and full: "(\<forall>i\<le>ticks s'. \<forall>j\<le>ticks s'. tenth_clock i - tenth_clock j \<le> 3) \<longrightarrow>
          phrase_buffer s' = lastn maxlen (concat (map words_of eleven_words))
          \<and> get_recent_phrase tenth_clock s'
              = Inr (lower (join '' '' (lastn maxlen (concat (map words_of eleven_words)))),
                     s'\<lparr>ticks := Suc (ticks s')\<rparr>)"
    by blast
  from r have s': "fst (projr ?run) = s'" by simp
  have "ticks (fst (projr ?run)) = 22" by code_simp
  with s' have t: "ticks s' = 22" by simp
  have "tenth_clock i - tenth_clock j \<le> 3" if "i \<le> 22" for i j
  proof -
    from that have "real i \<le> 22" by simp
    then show ?thesis by (simp add: tenth_clock_def)
  qed
  with t full have
    b: "phrase_buffer s' = lastn maxlen (concat (map words_of eleven_words))"
    and g: "get_recent_phrase tenth_clock s'
              = Inr (lower (join '' '' (lastn maxlen (concat (map words_of eleven_words)))),
                     s'\<lparr>ticks := Suc (ticks s')\<rparr>)"
    by simp_all
  have last10: "lastn maxlen (concat (map words_of eleven_words))
     = [''two'', ''three'', ''four'', ''five'', ''six'', ''seven'', ''eight'', ''nine'',
        ''ten'', ''eleven'']"
    by code_simp
  have joined: "lower (join '' '' [''two'', ''three'', ''four'', ''five'', ''six'', ''seven'',
        ''eight'', ''nine'', ''ten'', ''eleven''])
     = ''two three four five six seven eight nine ten eleven''"
    by code_simp
  from b g last10 joined s' show ?thesis by simp
qed

section \<open>Two scenarios\<close>
















end
